theory Spec2Isabelle
  imports Main "HOL-Library.AList" "HOL-Library.Word"
begin

section \<open>Data model\<close>

text \<open>
  The cache of the command-line explorer: \<^verbatim>\<open>type Cache struct { entries map[string]cacheEntry;
  mutex sync.Mutex }\<close> and \<^verbatim>\<open>type cacheEntry struct { createdAt time.Time; val []byte }\<close>.

  \<^item> A Go \<^verbatim>\<open>[]byte\<close> is either the nil slice or a sequence of bytes; \<open>None\<close> is nil,
    \<open>Some []\<close> the empty non-nil slice. Payloads are modelled by value.
  \<^item> \<^verbatim>\<open>time.Now()\<close> carries a reading of the process's monotonic clock, and
    \<^verbatim>\<open>time.Since\<close> subtracts monotonic readings. An instant is that reading in
    nanoseconds, a duration a number of nanoseconds (it may be zero or negative:
    \<^verbatim>\<open>NewCache\<close> does not validate it). Both are \<^verbatim>\<open>int64\<close> in Go; the readings
    count from the start of the process and are not negative, so the difference of two
    of them is in range and \<^verbatim>\<open>time.Since\<close> never saturates. The code does no other
    arithmetic on them, and the integers stand for them.
  \<^item> The Go map is an association list: its order is the order in which \<^verbatim>\<open>range\<close>
    happens to visit the keys, and its keys are pairwise distinct.
  \<^item> Every method holds the mutex from its first to its last map access, so each call
    is one step on the entry mapping; the mutex itself is not a field of the model.
  \<^item> The only place that builds a \<^verbatim>\<open>Cache\<close> is \<^verbatim>\<open>NewCache\<close>, which allocates the
    map; a cache with a nil map is not a state of the program.
\<close>

type_synonym byte = "8 word"
type_synonym bytes = "byte list option"
type_synonym instant = int
type_synonym duration = int

record cacheEntry =
  createdAt :: instant
  val :: bytes

record Cache =
  entries :: "(string \<times> cacheEntry) list"

text \<open>The representation invariant of a Go map: no key occurs twice.\<close>

definition wf_cache :: "Cache \<Rightarrow> bool" where
  "wf_cache cache = distinct (map fst (entries cache))"

text \<open>\<^verbatim>\<open>time.Since(t)\<close>, with \<open>now\<close> the clock reading of the call.\<close>

definition time_Since :: "instant \<Rightarrow> instant \<Rightarrow> duration" where
  "time_Since now t = now - t"

section \<open>Operations\<close>

text \<open>
  \<^verbatim>\<open>NewCache(interval)\<close> allocates the empty map; the goroutine it starts is
  \<open>Reaploop\<close> below.
\<close>

definition NewCache :: "duration \<Rightarrow> Cache" where
  "NewCache interval = \<lparr>entries = []\<rparr>"

text \<open>
  \<^verbatim>\<open>cache.entries[key] = cacheEntry{createdAt: time.Now(), val: val}\<close>; \<open>now\<close> is the
  reading \<^verbatim>\<open>time.Now()\<close> returns.
\<close>

definition Add :: "instant \<Rightarrow> string \<Rightarrow> bytes \<Rightarrow> Cache \<Rightarrow> Cache" where
  "Add now key v cache =
     cache\<lparr>entries := AList.update key \<lparr>createdAt = now, val = v\<rparr> (entries cache)\<rparr>"

text \<open>
  \<^verbatim>\<open>val, ok := cache.entries[key]; if ok { return val.val, true }; return nil, false\<close>.
  The method has a pointer receiver, so the model returns the cache it leaves behind
  next to the two results.
\<close>

definition Get :: "string \<Rightarrow> Cache \<Rightarrow> (bytes \<times> bool) \<times> Cache" where
  "Get key cache =
     (case map_of (entries cache) key of
        Some e \<Rightarrow> ((val e, True), cache)
      | None \<Rightarrow> ((None, False), cache))"

text \<open>
  The first loop of a pass of \<^verbatim>\<open>Reaploop\<close>:
  \<^verbatim>\<open>for key, val := range cache.entries { if time.Since(val.createdAt) > interval
  { toDelete = append(toDelete, key) } }\<close>.
  Each iteration reads the clock anew; \<open>clock key\<close> is the reading taken when the loop
  is at \<open>key\<close>.
\<close>

fun collect_stale ::
  "duration \<Rightarrow> (string \<Rightarrow> instant) \<Rightarrow> (string \<times> cacheEntry) list \<Rightarrow> string list \<Rightarrow> string list"
where
  "collect_stale interval clock [] toDelete = toDelete"
| "collect_stale interval clock ((key, e) # rest) toDelete =
     collect_stale interval clock rest
       (if time_Since (clock key) (createdAt e) > interval then toDelete @ [key] else toDelete)"

text \<open>The second loop: \<^verbatim>\<open>for _, key := range toDelete { delete(cache.entries, key) }\<close>.\<close>

fun delete_keys :: "string list \<Rightarrow> (string \<times> cacheEntry) list \<Rightarrow> (string \<times> cacheEntry) list" where
  "delete_keys [] es = es"
| "delete_keys (key # toDelete) es = delete_keys toDelete (AList.delete key es)"

text \<open>One pass of the loop body, from \<^verbatim>\<open>cache.mutex.Lock()\<close> to \<^verbatim>\<open>Unlock()\<close>.\<close>

definition reap_pass :: "duration \<Rightarrow> (string \<Rightarrow> instant) \<Rightarrow> Cache \<Rightarrow> Cache" where
  "reap_pass interval clock cache =
     (let toDelete = collect_stale interval clock (entries cache) []
      in cache\<lparr>entries := delete_keys toDelete (entries cache)\<rparr>)"

text \<open>
  \<^verbatim>\<open>Reaploop\<close> is \<^verbatim>\<open>for { time.Sleep(interval); ... }\<close> and never returns. Its
  first \<open>length clocks\<close> passes, run with nothing in between, are a recursion on the list
  of the clocks of those passes.
\<close>

fun Reaploop :: "duration \<Rightarrow> (string \<Rightarrow> instant) list \<Rightarrow> Cache \<Rightarrow> Cache" where
  "Reaploop interval [] cache = cache"
| "Reaploop interval (clock # clocks) cache =
     Reaploop interval clocks (reap_pass interval clock cache)"

section \<open>Histories\<close>

text \<open>
  What happens to one cache is a sequence of calls of its callers, interleaved with the
  passes of its goroutine; the mutex makes each of them one step.
\<close>

datatype event =
  EAdd instant string bytes
| EGet string
| EReap "string \<Rightarrow> instant"

fun step :: "duration \<Rightarrow> event \<Rightarrow> Cache \<Rightarrow> Cache" where
  "step interval (EAdd now key v) cache = Add now key v cache"
| "step interval (EGet key) cache = snd (Get key cache)"
| "step interval (EReap clock) cache = reap_pass interval clock cache"

fun run :: "duration \<Rightarrow> event list \<Rightarrow> Cache \<Rightarrow> Cache" where
  "run interval [] cache = cache"
| "run interval (ev # evs) cache = run interval evs (step interval ev cache)"

text \<open>\<open>stores key ev\<close>: the event is an \<^verbatim>\<open>Add\<close> of \<open>key\<close>.\<close>

fun stores :: "string \<Rightarrow> event \<Rightarrow> bool" where
  "stores key (EAdd now key' v) = (key' = key)"
| "stores key (EGet key') = False"
| "stores key (EReap clock) = False"

text \<open>\<open>is_reap ev\<close>: the event is a pass of the goroutine.\<close>

fun is_reap :: "event \<Rightarrow> bool" where
  "is_reap (EReap clock) = True"
| "is_reap (EAdd now key v) = False"
| "is_reap (EGet key) = False"

text \<open>\<open>reap_by key t ev\<close>: if the event is a pass, it looks at \<open>key\<close> no later than \<open>t\<close>.\<close>

fun reap_by :: "string \<Rightarrow> instant \<Rightarrow> event \<Rightarrow> bool" where
  "reap_by key t (EReap clock) = (clock key \<le> t)"
| "reap_by key t (EAdd now key' v) = True"
| "reap_by key t (EGet key') = True"

section \<open>The map operations\<close>

lemma Get_entries [simp]: "entries (snd (Get key cache)) = entries cache"
  by (simp add: Get_def split: option.split)

lemma Add_entries [simp]:
  "map_of (entries (Add now key v cache)) k =
     (if k = key then Some \<lparr>createdAt = now, val = v\<rparr> else map_of (entries cache) k)"
  by (simp add: Add_def update_conv')

lemma wf_NewCache [simp]: "wf_cache (NewCache interval)"
  by (simp add: wf_cache_def NewCache_def)

lemma wf_Add [simp]: "wf_cache cache \<Longrightarrow> wf_cache (Add now key v cache)"
  by (simp add: wf_cache_def Add_def distinct_update)

lemma wf_Get [simp]: "wf_cache (snd (Get key cache)) = wf_cache cache"
  by (simp add: wf_cache_def)

section \<open>A pass of the goroutine\<close>

lemma set_collect_stale:
  "set (collect_stale interval clock es acc) =
     set acc \<union> {k. \<exists>e. (k, e) \<in> set es \<and> interval < time_Since (clock k) (createdAt e)}"
proof (induction es arbitrary: acc)
  case Nil
  show ?case by simp
next
  case (Cons p es)
  obtain key e where p: "p = (key, e)" by (cases p)
  show ?case
    unfolding p by (simp add: Cons.IH) blast
qed

lemma map_of_delete_keys:
  "map_of (delete_keys ks es) k = (if k \<in> set ks then None else map_of es k)"
  by (induction ks arbitrary: es) (auto simp: delete_conv')

lemma distinct_delete_keys:
  "distinct (map fst es) \<Longrightarrow> distinct (map fst (delete_keys ks es))"
  by (induction ks arbitrary: es) (auto simp: distinct_delete)

lemma wf_reap_pass [simp]: "wf_cache cache \<Longrightarrow> wf_cache (reap_pass interval clock cache)"
  by (simp add: wf_cache_def reap_pass_def distinct_delete_keys)

lemma map_of_reap_pass:
  assumes "wf_cache cache"
  shows "map_of (entries (reap_pass interval clock cache)) k =
     (case map_of (entries cache) k of
        None \<Rightarrow> None
      | Some e \<Rightarrow> if interval < time_Since (clock k) (createdAt e) then None else Some e)"
proof -
  have mem: "(k, e) \<in> set (entries cache) \<longleftrightarrow> map_of (entries cache) k = Some e" for e
    using assms by (simp add: wf_cache_def)
  show ?thesis
    by (simp add: reap_pass_def map_of_delete_keys set_collect_stale mem split: option.split)
qed

lemma wf_step [simp]: "wf_cache cache \<Longrightarrow> wf_cache (step interval ev cache)"
  by (cases ev) simp_all

lemma wf_run [simp]: "wf_cache cache \<Longrightarrow> wf_cache (run interval evs cache)"
  by (induction evs arbitrary: cache) simp_all

lemma run_append: "run interval (xs @ ys) cache = run interval ys (run interval xs cache)"
  by (induction xs arbitrary: cache) simp_all

text \<open>Every state the program can reach has pairwise distinct keys.\<close>

lemma wf_reachable: "wf_cache (run interval evs (NewCache interval'))"
  by simp

lemma Reaploop_run: "Reaploop interval clocks cache = run interval (map EReap clocks) cache"
  by (induction clocks arbitrary: cache) simp_all

section \<open>Histories of one key\<close>

lemma Get_result:
  "fst (Get k cache) = (case map_of (entries cache) k of Some e \<Rightarrow> (val e, True) | None \<Rightarrow> (None, False))"
  by (simp add: Get_def split: option.split)

lemma reap_pass_absent:
  "map_of (entries cache) k = None \<Longrightarrow> map_of (entries (reap_pass interval clock cache)) k = None"
  by (simp add: reap_pass_def map_of_delete_keys)

lemma step_absent:
  "map_of (entries cache) k = None \<Longrightarrow> \<not> stores k ev \<Longrightarrow>
   map_of (entries (step interval ev cache)) k = None"
  by (cases ev) (simp_all add: reap_pass_absent)

lemma run_absent:
  "map_of (entries cache) k = None \<Longrightarrow> \<forall>ev \<in> set evs. \<not> stores k ev \<Longrightarrow>
   map_of (entries (run interval evs cache)) k = None"
  by (induction evs arbitrary: cache) (simp_all add: step_absent)

lemma step_kept:
  assumes "wf_cache cache" and "map_of (entries cache) k = Some e"
    and "\<not> stores k ev"
    and "\<And>clock. ev = EReap clock \<Longrightarrow> time_Since (clock k) (createdAt e) \<le> interval"
  shows "map_of (entries (step interval ev cache)) k = Some e"
  using assms by (cases ev) (simp_all add: map_of_reap_pass)

lemma run_kept:
  assumes "wf_cache cache" and "map_of (entries cache) k = Some e"
    and "\<forall>ev \<in> set evs. \<not> stores k ev"
    and "\<forall>ev \<in> set evs. \<forall>clock. ev = EReap clock \<longrightarrow> time_Since (clock k) (createdAt e) \<le> interval"
  shows "map_of (entries (run interval evs cache)) k = Some e"
  using assms
proof (induction evs arbitrary: cache)
  case Nil
  then show ?case by simp
next
  case (Cons ev evs)
  have "map_of (entries (step interval ev cache)) k = Some e"
    using Cons.prems by (intro step_kept) simp_all
  moreover have "wf_cache (step interval ev cache)"
    using Cons.prems(1) by simp
  ultimately show ?case
    using Cons.prems(3,4) by (simp add: Cons.IH)
qed

lemma step_origin:
  assumes "wf_cache cache" and "map_of (entries (step interval ev cache)) k = Some e"
  shows "map_of (entries cache) k = Some e \<or>
         (\<exists>now v. ev = EAdd now k v \<and> e = \<lparr>createdAt = now, val = v\<rparr>)"
  using assms
  by (cases ev) (auto simp: map_of_reap_pass split: if_splits option.splits)

lemma run_origin:
  assumes "wf_cache cache" and "map_of (entries (run interval evs cache)) k = Some e"
  shows "map_of (entries cache) k = Some e \<or>
         (\<exists>now v. EAdd now k v \<in> set evs \<and> e = \<lparr>createdAt = now, val = v\<rparr>)"
  using assms
proof (induction evs arbitrary: cache)
  case Nil
  then show ?case by simp
next
  case (Cons ev evs)
  have "wf_cache (step interval ev cache)"
    using Cons.prems(1) by simp
  from Cons.IH [OF this] Cons.prems(2)
  consider "map_of (entries (step interval ev cache)) k = Some e"
    | "\<exists>now v. EAdd now k v \<in> set evs \<and> e = \<lparr>createdAt = now, val = v\<rparr>"
    by auto
  then show ?case
  proof cases
    case 1
    from step_origin [OF Cons.prems(1) this] show ?thesis by auto
  next
    case 2
    then show ?thesis by auto
  qed
qed

lemma stores_EAdd: "EAdd now k v \<in> set evs \<Longrightarrow> \<exists>ev \<in> set evs. stores k ev"
  by (rule bexI [of _ "EAdd now k v"]) simp_all

section \<open>Round trip\<close>

text \<open>
  C1. \<^verbatim>\<open>Add(k, v)\<close> and then at once \<^verbatim>\<open>Get(k)\<close> returns \<open>(v, true)\<close>, for every key,
  every payload (the nil and the empty slice among them), every reading of the clock
  and every cache.
\<close>

theorem Add_then_Get: "fst (Get k (Add now k v cache)) = (v, True)"
  by (simp add: Get_def)

text \<open>The scenario of the specification, the empty key with the empty payload, and nil.\<close>

theorem Add_then_Get_witness:
  "fst (Get ''a'' (Add 0 ''a'' (Some [1, 2, 3]) (NewCache 100000000))) = (Some [1, 2, 3], True) \<and>
   fst (Get '''' (Add 7 '''' (Some []) (NewCache 0))) = (Some [], True) \<and>
   fst (Get ''a'' (Add 7 ''a'' None (NewCache (- 1)))) = (None, True)"
  using Add_then_Get [of "''a''" 0 "Some [1, 2, 3]" "NewCache 100000000"]
    Add_then_Get [of "''''" 7 "Some []" "NewCache 0"]
    Add_then_Get [of "''a''" 7 None "NewCache (- 1)"]
  by simp

section \<open>What a pass removes\<close>

text \<open>
  C2. After a pass of \<^verbatim>\<open>Reaploop\<close> with interval \<open>ttl\<close>, a key whose entry had an age
  above \<open>ttl\<close> when the pass looked at it is no longer in the map, a key whose entry had
  an age of at most \<open>ttl\<close> still has that entry, \<open>createdAt\<close> and \<open>val\<close> as they were,
  and a key that was not in the map is not in it afterwards.
\<close>

theorem reap_pass_removes_exactly_stale:
  assumes "wf_cache cache"
  shows "map_of (entries (reap_pass ttl clock cache)) k =
     (case map_of (entries cache) k of
        None \<Rightarrow> None
      | Some e \<Rightarrow> if ttl < time_Since (clock k) (createdAt e) then None else Some e)"
  using assms by (rule map_of_reap_pass)

text \<open>A stale and a fresh entry in one pass.\<close>

theorem reap_pass_removes_exactly_stale_witness:
  "wf_cache (Add 200 ''b'' None (Add 0 ''a'' (Some [1, 2, 3]) (NewCache 100))) \<and>
   map_of (entries (reap_pass 100 (\<lambda>key. 250)
     (Add 200 ''b'' None (Add 0 ''a'' (Some [1, 2, 3]) (NewCache 100))))) ''a'' = None \<and>
   map_of (entries (reap_pass 100 (\<lambda>key. 250)
     (Add 200 ''b'' None (Add 0 ''a'' (Some [1, 2, 3]) (NewCache 100))))) ''b'' =
     Some \<lparr>createdAt = 200, val = None\<rparr>"
  using
    reap_pass_removes_exactly_stale [of "Add 200 ''b'' None (Add 0 ''a'' (Some [1, 2, 3]) (NewCache 100))"
      100 "\<lambda>key. 250" "''a''"]
    reap_pass_removes_exactly_stale [of "Add 200 ''b'' None (Add 0 ''a'' (Some [1, 2, 3]) (NewCache 100))"
      100 "\<lambda>key. 250" "''b''"]
  by (simp add: time_Since_def)

section \<open>Eviction after the interval\<close>

text \<open>
  C3. In a cache with interval \<open>T\<close>, let \<^verbatim>\<open>Add(k, v)\<close> happen at \<open>t0\<close>, followed by any
  calls and passes that do not store \<open>k\<close> again, among them a pass that looks at \<open>k\<close>
  later than \<open>t0 + T\<close>. Then \<^verbatim>\<open>Get(k)\<close> returns \<open>(nil, false)\<close>. When such a pass
  happens is decided by \<^verbatim>\<open>time.Sleep\<close> and the scheduler; here it is a premise.
\<close>

theorem ttl_eviction:
  assumes wf: "wf_cache cache"
    and before: "\<forall>ev \<in> set before. \<not> stores k ev"
    and after: "\<forall>ev \<in> set after. \<not> stores k ev"
    and late: "t0 + T < clock k"
  shows "fst (Get k (run T (EAdd t0 k v # before @ EReap clock # after) cache)) = (None, False)"
proof -
  let ?s1 = "run T before (Add t0 k v cache)"
  have wf1: "wf_cache ?s1" using wf by simp
  have "map_of (entries (reap_pass T clock ?s1)) k = None"
  proof (cases "map_of (entries ?s1) k")
    case None
    then show ?thesis by (rule reap_pass_absent)
  next
    case (Some e)
    have "wf_cache (Add t0 k v cache)" using wf by simp
    from run_origin [OF this Some] before stores_EAdd
    have "e = \<lparr>createdAt = t0, val = v\<rparr>" by fastforce
    with Some late show ?thesis
      by (simp add: map_of_reap_pass [OF wf1] time_Since_def)
  qed
  then have "map_of (entries (run T after (reap_pass T clock ?s1))) k = None"
    using after by (rule run_absent)
  then show ?thesis
    by (simp add: run_append Get_result)
qed

theorem ttl_eviction_witness:
  "wf_cache (NewCache 100) \<and>
   \<not> stores ''a'' (EGet ''a'') \<and>
   \<not> stores ''a'' (EAdd 260 ''b'' None) \<and>
   (0::int) + 100 < (\<lambda>key. 250) ''a'' \<and>
   fst (Get ''a'' (run 100
     (EAdd 0 ''a'' (Some [1, 2, 3]) # [EGet ''a''] @ EReap (\<lambda>key. 250) # [EAdd 260 ''b'' None])
     (NewCache 100))) = (None, False)"
  using ttl_eviction [of "NewCache 100" "[EGet ''a'']" "''a''" "[EAdd 260 ''b'' None]" 0 100
    "\<lambda>key. 250" "Some [1, 2, 3]"]
  by simp

section \<open>No eviction before the interval\<close>

text \<open>
  C4. First part: take any pass, the last one in particular, and any calls and passes
  after it. An entry that is in the map at the end was either in the map when that pass
  ran, with an age of at most \<open>T\<close> when the pass looked at it, or was written by an
  \<^verbatim>\<open>Add\<close> after the pass (the pass holds the mutex from its start to its end, so an
  \<^verbatim>\<open>Add\<close> is before it or after it).
  Second part: for \<open>0 \<le> T\<close>, after \<^verbatim>\<open>Add(k, v)\<close> at \<open>t0\<close>, if \<open>k\<close> is not stored again
  and every pass so far has looked at \<open>k\<close> no later than \<open>t0 + T div 2\<close>, then
  \<^verbatim>\<open>Get(k)\<close> returns \<open>(v, true)\<close>. (For \<open>T < 0\<close> the instant \<open>t0 + T / 2\<close> is before
  the \<^verbatim>\<open>Add\<close>.)
\<close>

theorem no_premature_eviction:
  "(wf_cache cache \<and> map_of (entries (run T evs (reap_pass T clock cache))) k = Some e \<longrightarrow>
      map_of (entries cache) k = Some e \<and> time_Since (clock k) (createdAt e) \<le> T \<or>
      (\<exists>now v. EAdd now k v \<in> set evs \<and> e = \<lparr>createdAt = now, val = v\<rparr>)) \<and>
   (wf_cache cache' \<and> 0 \<le> T \<and> (\<forall>ev \<in> set evs'. \<not> stores k ev \<and> reap_by k (t0 + T div 2) ev) \<longrightarrow>
      fst (Get k (run T (EAdd t0 k v # evs') cache')) = (v, True))"
proof (intro conjI impI)
  assume a: "wf_cache cache \<and> map_of (entries (run T evs (reap_pass T clock cache))) k = Some e"
  then have wf: "wf_cache cache" by simp
  then have "wf_cache (reap_pass T clock cache)" by simp
  moreover have "map_of (entries (run T evs (reap_pass T clock cache))) k = Some e"
    using a by simp
  ultimately consider "map_of (entries (reap_pass T clock cache)) k = Some e"
    | "\<exists>now v. EAdd now k v \<in> set evs \<and> e = \<lparr>createdAt = now, val = v\<rparr>"
    using run_origin by blast
  then show "map_of (entries cache) k = Some e \<and> time_Since (clock k) (createdAt e) \<le> T \<or>
      (\<exists>now v. EAdd now k v \<in> set evs \<and> e = \<lparr>createdAt = now, val = v\<rparr>)"
  proof cases
    case 1
    then show ?thesis
      by (simp add: map_of_reap_pass [OF wf] split: option.splits if_splits)
  next
    case 2
    then show ?thesis by simp
  qed
next
  assume b: "wf_cache cache' \<and> 0 \<le> T \<and>
    (\<forall>ev \<in> set evs'. \<not> stores k ev \<and> reap_by k (t0 + T div 2) ev)"
  let ?e = "\<lparr>createdAt = t0, val = v\<rparr>"
  have wf: "wf_cache (Add t0 k v cache')" using b by simp
  have present: "map_of (entries (Add t0 k v cache')) k = Some ?e" by simp
  have quiet: "\<forall>ev \<in> set evs'. \<not> stores k ev" using b by simp
  have early: "\<forall>ev \<in> set evs'. \<forall>clock. ev = EReap clock \<longrightarrow> time_Since (clock k) (createdAt ?e) \<le> T"
  proof (intro ballI allI impI)
    fix ev clock assume mem: "ev \<in> set evs'" and ev: "ev = EReap clock"
    from b mem have "reap_by k (t0 + T div 2) ev" by blast
    then have "clock k \<le> t0 + T div 2" unfolding ev by simp
    moreover from b have "0 \<le> T" by simp
    then have "T div 2 \<le> T" by linarith
    ultimately show "time_Since (clock k) (createdAt ?e) \<le> T"
      by (simp add: time_Since_def)
  qed
  from run_kept [OF wf present quiet early]
  show "fst (Get k (run T (EAdd t0 k v # evs') cache')) = (v, True)"
    by (simp add: Get_result)
qed

theorem no_premature_eviction_witness:
  "wf_cache (Add 0 ''a'' (Some [1]) (NewCache 100)) \<and>
   map_of (entries (run 100 [EGet ''a''] (reap_pass 100 (\<lambda>key. 50)
     (Add 0 ''a'' (Some [1]) (NewCache 100))))) ''a'' = Some \<lparr>createdAt = 0, val = Some [1]\<rparr> \<and>
   map_of (entries (Add 0 ''a'' (Some [1]) (NewCache 100))) ''a'' =
     Some \<lparr>createdAt = 0, val = Some [1]\<rparr> \<and>
   time_Since ((\<lambda>key. 50) ''a'') (createdAt \<lparr>createdAt = 0, val = Some [1]\<rparr>) \<le> 100 \<and>
   wf_cache (NewCache 100) \<and> (0::int) \<le> 100 \<and>
   \<not> stores ''a'' (EReap (\<lambda>key. 30)) \<and> reap_by ''a'' (0 + 100 div 2) (EReap (\<lambda>key. 30)) \<and>
   \<not> stores ''a'' (EAdd 40 ''b'' None) \<and> reap_by ''a'' (0 + 100 div 2) (EAdd 40 ''b'' None) \<and>
   \<not> stores ''a'' (EReap (\<lambda>key. 50)) \<and> reap_by ''a'' (0 + 100 div 2) (EReap (\<lambda>key. 50)) \<and>
   fst (Get ''a'' (run 100
     (EAdd 0 ''a'' (Some [1, 2, 3]) # [EReap (\<lambda>key. 30), EAdd 40 ''b'' None, EReap (\<lambda>key. 50)])
     (NewCache 100))) = (Some [1, 2, 3], True)"
  using no_premature_eviction [where cache = "Add 0 ''a'' (Some [1]) (NewCache 100)"
      and T = 100 and evs = "[EGet ''a'']" and clock = "\<lambda>key. 50" and k = "''a''"
      and e = "\<lparr>createdAt = 0, val = Some [1]\<rparr>" and cache' = "NewCache 100"
      and evs' = "[EReap (\<lambda>key. 30), EAdd 40 ''b'' None, EReap (\<lambda>key. 50)]"
      and ?t0.0 = 0 and v = "Some [1, 2, 3]"]
  by (simp add: reap_pass_def Add_def NewCache_def time_Since_def wf_cache_def)

section \<open>Overwriting\<close>

text \<open>
  C5. \<^verbatim>\<open>Add(k, v1)\<close>, \<^verbatim>\<open>Add(k, v2)\<close>, \<^verbatim>\<open>Get(k)\<close> returns \<open>(v2, true)\<close>, whatever the
  two readings of the clock are, also when the second is the smaller one.
\<close>

theorem last_write_wins: "fst (Get k (Add t2 k v2 (Add t1 k v1 cache))) = (v2, True)"
  by (simp add: Get_result)

theorem last_write_wins_witness:
  "fst (Get ''a'' (Add 3 ''a'' (Some [9]) (Add 5 ''a'' (Some [1, 2, 3]) (NewCache 100)))) =
     (Some [9], True)"
  using last_write_wins [of "''a''" 3 "Some [9]" 5 "Some [1, 2, 3]" "NewCache 100"]
  by simp

section \<open>Lookup does not look at the age\<close>

text \<open>
  C6. \<^verbatim>\<open>Get\<close> takes neither a clock reading nor the interval. If the map has an entry
  for \<open>k\<close>, \<^verbatim>\<open>Get(k)\<close> returns its bytes and \<open>true\<close>, whatever the entry's
  \<open>createdAt\<close> is; and it goes on doing so through any calls that do not store \<open>k\<close>,
  as long as no pass of the goroutine has run.
\<close>

theorem Get_ignores_age:
  "(map_of (entries cache) k = Some e \<longrightarrow> fst (Get k cache) = (val e, True)) \<and>
   (wf_cache cache \<and> map_of (entries cache) k = Some e \<and>
      (\<forall>ev \<in> set evs. \<not> stores k ev \<and> \<not> is_reap ev) \<longrightarrow>
      fst (Get k (run ttl evs cache)) = (val e, True))"
proof (intro conjI impI)
  assume "map_of (entries cache) k = Some e"
  then show "fst (Get k cache) = (val e, True)" by (simp add: Get_result)
next
  assume a: "wf_cache cache \<and> map_of (entries cache) k = Some e \<and>
      (\<forall>ev \<in> set evs. \<not> stores k ev \<and> \<not> is_reap ev)"
  then have "map_of (entries (run ttl evs cache)) k = Some e"
    by (intro run_kept) auto
  then show "fst (Get k (run ttl evs cache)) = (val e, True)" by (simp add: Get_result)
qed

text \<open>An entry of age 500 in a cache of interval 100 is still served.\<close>

theorem Get_ignores_age_witness:
  "map_of (entries (Add 0 ''a'' (Some [1, 2, 3]) (NewCache 100))) ''a'' =
     Some \<lparr>createdAt = 0, val = Some [1, 2, 3]\<rparr> \<and>
   100 < time_Since 500 (createdAt \<lparr>createdAt = 0, val = Some [1, 2, 3]\<rparr>) \<and>
   fst (Get ''a'' (Add 0 ''a'' (Some [1, 2, 3]) (NewCache 100))) = (Some [1, 2, 3], True) \<and>
   wf_cache (Add 0 ''a'' (Some [1, 2, 3]) (NewCache 100)) \<and>
   \<not> stores ''a'' (EGet ''a'') \<and> \<not> is_reap (EGet ''a'') \<and>
   \<not> stores ''a'' (EAdd 500 ''b'' None) \<and> \<not> is_reap (EAdd 500 ''b'' None) \<and>
   fst (Get ''a'' (run 100 [EGet ''a'', EAdd 500 ''b'' None]
     (Add 0 ''a'' (Some [1, 2, 3]) (NewCache 100)))) = (Some [1, 2, 3], True)"
  using Get_ignores_age [of "Add 0 ''a'' (Some [1, 2, 3]) (NewCache 100)" "''a''"
      "\<lparr>createdAt = 0, val = Some [1, 2, 3]\<rparr>" "[EGet ''a'', EAdd 500 ''b'' None]" 100]
  by (simp add: time_Since_def)

section \<open>Misses\<close>

text \<open>
  C7. \<^verbatim>\<open>Get(k)\<close> returns \<open>(nil, false)\<close> for a key that was never stored since
  \<^verbatim>\<open>NewCache\<close>, and for a key whose entry a pass has removed and that was not stored
  again. \<^verbatim>\<open>Get\<close> has no other outcome than a pair of bytes and a flag, and the flag
  says exactly whether the key is in the map.
\<close>

theorem Get_miss:
  "((\<forall>ev \<in> set evs. \<not> stores k ev) \<longrightarrow>
      fst (Get k (run T evs (NewCache T))) = (None, False)) \<and>
   (wf_cache cache \<and> map_of (entries cache) k = Some e \<and> T < time_Since (clock k) (createdAt e) \<and>
      (\<forall>ev \<in> set evs'. \<not> stores k ev) \<longrightarrow>
      fst (Get k (run T evs' (reap_pass T clock cache))) = (None, False)) \<and>
   snd (fst (Get k cache')) = (k \<in> dom (map_of (entries cache')))"
proof (intro conjI impI)
  assume a: "\<forall>ev \<in> set evs. \<not> stores k ev"
  have "map_of (entries (NewCache T)) k = None" by (simp add: NewCache_def)
  from run_absent [OF this a]
  show "fst (Get k (run T evs (NewCache T))) = (None, False)" by (simp add: Get_result)
next
  assume a: "wf_cache cache \<and> map_of (entries cache) k = Some e \<and>
      T < time_Since (clock k) (createdAt e) \<and> (\<forall>ev \<in> set evs'. \<not> stores k ev)"
  then have "map_of (entries (reap_pass T clock cache)) k = None"
    by (simp add: map_of_reap_pass)
  from run_absent [OF this] a
  show "fst (Get k (run T evs' (reap_pass T clock cache))) = (None, False)"
    by (simp add: Get_result)
next
  show "snd (fst (Get k cache')) = (k \<in> dom (map_of (entries cache')))"
    by (auto simp: Get_result split: option.split)
qed

theorem Get_miss_witness:
  "\<not> stores ''a'' (EAdd 0 ''b'' None) \<and> \<not> stores ''a'' (EReap (\<lambda>key. 10)) \<and>
   \<not> stores ''a'' (EGet ''a'') \<and>
   fst (Get ''a'' (run 100 [EAdd 0 ''b'' None, EReap (\<lambda>key. 10), EGet ''a''] (NewCache 100))) =
     (None, False) \<and>
   wf_cache (Add 0 ''a'' (Some []) (NewCache 100)) \<and>
   map_of (entries (Add 0 ''a'' (Some []) (NewCache 100))) ''a'' =
     Some \<lparr>createdAt = 0, val = Some []\<rparr> \<and>
   100 < time_Since ((\<lambda>key. 250) ''a'') (createdAt \<lparr>createdAt = 0, val = Some []\<rparr>) \<and>
   \<not> stores ''a'' (EGet ''a'') \<and>
   fst (Get ''a'' (run 100 [EGet ''a''] (reap_pass 100 (\<lambda>key. 250)
     (Add 0 ''a'' (Some []) (NewCache 100))))) = (None, False) \<and>
   snd (fst (Get '''' (NewCache 100))) = ('''' \<in> dom (map_of (entries (NewCache 100))))"
  using Get_miss [where evs = "[EAdd 0 ''b'' None, EReap (\<lambda>key. 10), EGet ''a'']" and k = "''a''"
      and T = 100 and cache = "Add 0 ''a'' (Some []) (NewCache 100)"
      and e = "\<lparr>createdAt = 0, val = Some []\<rparr>" and clock = "\<lambda>key. 250"
      and evs' = "[EGet ''a'']" and cache' = "NewCache 100"]
    Get_miss [where k = "''''" and cache' = "NewCache 100"]
  by (simp add: time_Since_def)

section \<open>Entries are replaced, never changed\<close>

text \<open>
  C8. First part: one step leaves the entry of a key as it is, or removes it (a pass, when
  its age is above \<open>T\<close>), or replaces it by the pair of the new payload and the reading
  of the clock at the \<^verbatim>\<open>Add\<close>. Second part: over any history, an entry found under a
  key is the entry that was there at the start or the pair one \<^verbatim>\<open>Add\<close> of the history wrote: no
  \<open>createdAt\<close> or \<open>val\<close> arises otherwise. Third part: the pass holds the mutex from
  its first loop to the end of its second, so an \<^verbatim>\<open>Add\<close> of \<open>k\<close> is before the pass
  or after it. A pass after the \<^verbatim>\<open>Add\<close> judges \<open>k\<close> by the reading of that \<^verbatim>\<open>Add\<close>,
  whatever entry \<open>k\<close> had before; an \<^verbatim>\<open>Add\<close> after the pass leaves its entry in the
  map, whatever the pass did to the old one.
\<close>

theorem entries_never_mutated:
  "(wf_cache cache \<and> map_of (entries cache) k = Some e \<longrightarrow>
      map_of (entries (step T ev cache)) k =
        (case ev of
           EAdd now k' v \<Rightarrow> if k' = k then Some \<lparr>createdAt = now, val = v\<rparr> else Some e
         | EGet k' \<Rightarrow> Some e
         | EReap clock \<Rightarrow> if T < time_Since (clock k) (createdAt e) then None else Some e)) \<and>
   (wf_cache cache \<and> map_of (entries (run T evs cache)) k = Some e' \<longrightarrow>
      map_of (entries cache) k = Some e' \<or>
      (\<exists>now v. EAdd now k v \<in> set evs \<and> e' = \<lparr>createdAt = now, val = v\<rparr>)) \<and>
   (wf_cache cache \<and> time_Since (clock' k) now' \<le> T \<longrightarrow>
      map_of (entries (reap_pass T clock' (Add now' k v' cache))) k =
        Some \<lparr>createdAt = now', val = v'\<rparr>) \<and>
   map_of (entries (Add now' k v' (reap_pass T clock' cache))) k =
     Some \<lparr>createdAt = now', val = v'\<rparr>"
proof (intro conjI impI)
  assume "wf_cache cache \<and> map_of (entries cache) k = Some e"
  then show "map_of (entries (step T ev cache)) k =
        (case ev of
           EAdd now k' v \<Rightarrow> if k' = k then Some \<lparr>createdAt = now, val = v\<rparr> else Some e
         | EGet k' \<Rightarrow> Some e
         | EReap clock \<Rightarrow> if T < time_Since (clock k) (createdAt e) then None else Some e)"
    by (cases ev) (simp_all add: map_of_reap_pass)
next
  assume "wf_cache cache \<and> map_of (entries (run T evs cache)) k = Some e'"
  then show "map_of (entries cache) k = Some e' \<or>
      (\<exists>now v. EAdd now k v \<in> set evs \<and> e' = \<lparr>createdAt = now, val = v\<rparr>)"
    using run_origin by blast
next
  assume a: "wf_cache cache \<and> time_Since (clock' k) now' \<le> T"
  then have "wf_cache (Add now' k v' cache)" by simp
  from map_of_reap_pass [OF this] a
  show "map_of (entries (reap_pass T clock' (Add now' k v' cache))) k =
        Some \<lparr>createdAt = now', val = v'\<rparr>"
    by simp
next
  show "map_of (entries (Add now' k v' (reap_pass T clock' cache))) k =
     Some \<lparr>createdAt = now', val = v'\<rparr>"
    by simp
qed

text \<open>A stale entry refreshed at 240 survives the pass at 250.\<close>

theorem entries_never_mutated_witness:
  "wf_cache (Add 0 ''a'' (Some [1]) (NewCache 100)) \<and>
   map_of (entries (Add 0 ''a'' (Some [1]) (NewCache 100))) ''a'' =
     Some \<lparr>createdAt = 0, val = Some [1]\<rparr> \<and>
   map_of (entries (step 100 (EReap (\<lambda>key. 50)) (Add 0 ''a'' (Some [1]) (NewCache 100)))) ''a'' =
     Some \<lparr>createdAt = 0, val = Some [1]\<rparr> \<and>
   map_of (entries (run 100 [EAdd 5 ''a'' None, EReap (\<lambda>key. 50)]
     (Add 0 ''a'' (Some [1]) (NewCache 100)))) ''a'' = Some \<lparr>createdAt = 5, val = None\<rparr> \<and>
   EAdd 5 ''a'' None \<in> set [EAdd 5 ''a'' None, EReap (\<lambda>key. 50)] \<and>
   time_Since ((\<lambda>key. 250) ''a'') 240 \<le> 100 \<and>
   map_of (entries (reap_pass 100 (\<lambda>key. 250)
     (Add 240 ''a'' (Some [2]) (Add 0 ''a'' (Some [1]) (NewCache 100))))) ''a'' =
     Some \<lparr>createdAt = 240, val = Some [2]\<rparr> \<and>
   map_of (entries (Add 240 ''a'' (Some [2]) (reap_pass 100 (\<lambda>key. 250)
     (Add 0 ''a'' (Some [1]) (NewCache 100))))) ''a'' =
     Some \<lparr>createdAt = 240, val = Some [2]\<rparr>"
  using entries_never_mutated [where cache = "Add 0 ''a'' (Some [1]) (NewCache 100)"
      and k = "''a''" and e = "\<lparr>createdAt = 0, val = Some [1]\<rparr>" and T = 100
      and ev = "EReap (\<lambda>key. 50)" and evs = "[EAdd 5 ''a'' None, EReap (\<lambda>key. 50)]"
      and e' = "\<lparr>createdAt = 5, val = None\<rparr>" and clock' = "\<lambda>key. 250" and now' = 240
      and v' = "Some [2]"]
  by (simp add: reap_pass_def Add_def NewCache_def time_Since_def wf_cache_def)

section \<open>Lookup is read-only\<close>

text \<open>
  C10. \<^verbatim>\<open>Get(k)\<close> leaves the cache as it found it, for every key, the empty string
  among them, and when the flag it returns is \<open>false\<close> the bytes it returns are nil.
\<close>

theorem Get_read_only:
  "snd (Get k cache) = cache \<and>
   (snd (fst (Get k cache)) = False \<longrightarrow> fst (fst (Get k cache)) = None)"
  by (simp add: Get_def split: option.split)

theorem Get_read_only_witness:
  "snd (Get '''' (NewCache 100)) = NewCache 100 \<and>
   snd (fst (Get '''' (NewCache 100))) = False \<and>
   fst (fst (Get '''' (NewCache 100))) = None"
  using Get_read_only [of "''''" "NewCache 100"]
  by (simp add: Get_def NewCache_def)

end
